theory Spec2Isabelle
  imports Main
begin

section \<open>Python values used by XDM1041.py\<close>

text \<open>
  A Python \<open>bytes\<close>/\<open>bytearray\<close> value is a list of 8-bit characters; a Python
  \<open>str\<close> is a list of Unicode code points.  \<open>py\<close> turns an ASCII literal into the
  \<open>str\<close> with the same characters.
\<close>

type_synonym bytes = "char list"
type_synonym pystr = "nat list"

definition py :: "string \<Rightarrow> pystr" where
  "py s = map of_char s"

definition CR :: char where "CR = char_of (13::nat)"
definition LF :: char where "LF = char_of (10::nat)"

datatype error =
    AttributeError
  | TypeError
  | UnicodeEncodeError
  | PortNotOpenError

text \<open>The value returned by \<open>get_response\<close>: a float, the integer \<open>0\<close>, or a string.
  Floating point is not modelled: \<open>'f\<close> stands for Python's \<open>float\<close>.\<close>

datatype 'f pyval = PyFloat 'f | PyInt int | PyStr pystr

subsection \<open>String methods\<close>

text \<open>\<open>s.find(sub)\<close>: the lowest index at which \<open>sub\<close> occurs, or \<open>-1\<close>.\<close>

fun find_from :: "pystr \<Rightarrow> pystr \<Rightarrow> nat \<Rightarrow> int" where
  "find_from sub [] i = (if sub = [] then int i else - 1)"
| "find_from sub (c # s) i =
     (if take (length sub) (c # s) = sub then int i else find_from sub s (Suc i))"

definition str_find :: "pystr \<Rightarrow> pystr \<Rightarrow> int" where
  "str_find s sub = find_from sub s 0"

text \<open>\<open>str.isspace\<close> for one code point, the set \<open>s.strip()\<close> removes.\<close>

definition is_space :: "nat \<Rightarrow> bool" where
  "is_space c \<longleftrightarrow>
     (0x09 \<le> c \<and> c \<le> 0x0D) \<or> (0x1C \<le> c \<and> c \<le> 0x20) \<or> c = 0x85 \<or> c = 0xA0 \<or>
     c = 0x1680 \<or> (0x2000 \<le> c \<and> c \<le> 0x200A) \<or> c = 0x2028 \<or> c = 0x2029 \<or>
     c = 0x202F \<or> c = 0x205F \<or> c = 0x3000"

definition strip_where :: "(nat \<Rightarrow> bool) \<Rightarrow> pystr \<Rightarrow> pystr" where
  "strip_where P s = rev (dropWhile P (rev (dropWhile P s)))"

text \<open>\<open>s.strip()\<close> and \<open>s.strip(chars)\<close>.\<close>

definition str_strip :: "pystr \<Rightarrow> pystr" where
  "str_strip s = strip_where is_space s"

definition str_strip_chars :: "pystr \<Rightarrow> pystr \<Rightarrow> pystr" where
  "str_strip_chars s chars = strip_where (\<lambda>c. c \<in> set chars) s"

text \<open>\<open>s.endswith(suf)\<close>.\<close>

definition endswith :: "pystr \<Rightarrow> pystr \<Rightarrow> bool" where
  "endswith s suf \<longleftrightarrow> length suf \<le> length s \<and> drop (length s - length suf) s = suf"

text \<open>\<open>msg.encode("ascii")\<close>: raises on a code point beyond 127.\<close>

definition encode_ascii :: "pystr \<Rightarrow> error + bytes" where
  "encode_ascii s = (if \<forall>c \<in> set s. c < 128 then Inr (map char_of s) else Inl UnicodeEncodeError)"

subsection \<open>Decoding with \<open>errors="backslashreplace"\<close>\<close>

text \<open>
  \<open>buf.decode(errors="backslashreplace")\<close> decodes UTF-8.  A byte that cannot start a
  sequence, and the bytes of a sequence cut short by a byte that cannot continue it or by
  the end of the input, are each replaced by the four characters \<open>\xNN\<close> (lower-case
  hexadecimal); decoding resumes right after them.
\<close>

definition hexdigit :: "nat \<Rightarrow> nat" where
  "hexdigit d = (if d < 10 then 48 + d else 87 + d)"

definition bsx :: "nat \<Rightarrow> pystr" where
  "bsx c = [92, 120, hexdigit (c div 16), hexdigit (c mod 16)]"

definition is_cont :: "nat \<Rightarrow> bool" where
  "is_cont c \<longleftrightarrow> 0x80 \<le> c \<and> c < 0xC0"

fun utf8_dec :: "nat list \<Rightarrow> pystr" where
  "utf8_dec [] = []"
| "utf8_dec (c # s) =
    (if c < 0x80 then c # utf8_dec s
     else if c < 0xC2 then bsx c @ utf8_dec s
     else if c < 0xE0 then
       (case s of
          [] \<Rightarrow> bsx c
        | c2 # s2 \<Rightarrow>
            if is_cont c2 then ((c - 0xC0) * 64 + (c2 - 0x80)) # utf8_dec s2
            else bsx c @ utf8_dec s)
     else if c < 0xF0 then
       (case s of
          [] \<Rightarrow> bsx c
        | c2 # s2 \<Rightarrow>
            if \<not> is_cont c2 \<or> (if c2 < 0xA0 then c = 0xE0 else c = 0xED)
            then bsx c @ utf8_dec s
            else (case s2 of
                    [] \<Rightarrow> bsx c @ bsx c2
                  | c3 # s3 \<Rightarrow>
                      if is_cont c3
                      then ((c - 0xE0) * 4096 + (c2 - 0x80) * 64 + (c3 - 0x80)) # utf8_dec s3
                      else bsx c @ bsx c2 @ utf8_dec s2))
     else if c < 0xF5 then
       (case s of
          [] \<Rightarrow> bsx c
        | c2 # s2 \<Rightarrow>
            if \<not> is_cont c2 \<or> (if c2 < 0x90 then c = 0xF0 else c = 0xF4)
            then bsx c @ utf8_dec s
            else (case s2 of
                    [] \<Rightarrow> bsx c @ bsx c2
                  | c3 # s3 \<Rightarrow>
                      if \<not> is_cont c3 then bsx c @ bsx c2 @ utf8_dec s2
                      else (case s3 of
                              [] \<Rightarrow> bsx c @ bsx c2 @ bsx c3
                            | c4 # s4 \<Rightarrow>
                                if is_cont c4
                                then ((c - 0xF0) * 262144 + (c2 - 0x80) * 4096
                                        + (c3 - 0x80) * 64 + (c4 - 0x80)) # utf8_dec s4
                                else bsx c @ bsx c2 @ bsx c3 @ utf8_dec s3)))
     else bsx c @ utf8_dec s)"

definition decode :: "bytes \<Rightarrow> pystr" where
  "decode buf = utf8_dec (map of_char buf)"

section \<open>The serial port\<close>

text \<open>
  The port object \<open>_SIF\<close> and the device behind it.  \<open>feed k\<close> is what the device
  delivers to the \<open>k\<close>-th \<open>read\<close> call made on the port, \<open>reads\<close> counts the calls
  made so far, \<open>written\<close> logs the \<open>write\<close> calls.  \<open>sleeps\<close> logs the calls of
  \<open>sleep\<close> in milliseconds and \<open>printed\<close> the lines given to \<open>print\<close>.
\<close>

record world =
  feed :: "nat \<Rightarrow> bytes"
  reads :: nat
  written :: "bytes list"
  is_open :: bool
  sleeps :: "nat list"
  printed :: "pystr list"

text \<open>\<open>_SIF.read(size)\<close>: at most \<open>size\<close> bytes, none when the timeout expires.\<close>

definition serial_read :: "nat \<Rightarrow> world \<Rightarrow> (error + bytes) \<times> world" where
  "serial_read sz w =
     (if is_open w then (Inr (take sz (feed w (reads w))), w\<lparr>reads := Suc (reads w)\<rparr>)
      else (Inl PortNotOpenError, w))"

definition serial_write :: "bytes \<Rightarrow> world \<Rightarrow> (error + unit) \<times> world" where
  "serial_write data w =
     (if is_open w then (Inr (), w\<lparr>written := written w @ [data]\<rparr>)
      else (Inl PortNotOpenError, w))"

definition serial_close :: "world \<Rightarrow> (error + unit) \<times> world" where
  "serial_close w = (Inr (), w\<lparr>is_open := False\<rparr>)"

definition sleep :: "nat \<Rightarrow> world \<Rightarrow> world" where
  "sleep ms w = w\<lparr>sleeps := sleeps w @ [ms]\<rparr>"

definition print :: "pystr \<Rightarrow> world \<Rightarrow> world" where
  "print s w = w\<lparr>printed := printed w @ [s]\<rparr>"

section \<open>class SCPI\<close>

record scpi =
  port_dev :: pystr
  speed :: nat
  timeout_ms :: nat

text \<open>\<open>SCPI.__init__\<close>: opens the port.  The port is taken to open; a port that cannot
  be opened makes the serial library raise before any line of this file's classes runs.\<close>

definition SCPI_init :: "pystr \<Rightarrow> nat \<Rightarrow> nat \<Rightarrow> world \<Rightarrow> scpi \<times> world" where
  "SCPI_init port spd tmo w =
     (\<lparr>port_dev = port, speed = spd, timeout_ms = tmo\<rparr>, w\<lparr>is_open := True\<rparr>)"

text \<open>\<open>SCPI.__del__\<close>: \<open>try: self._SIF.close()  except: pass\<close>.\<close>

definition SCPI_del :: "world \<Rightarrow> world" where
  "SCPI_del w = (case serial_close w of (Inl e, w') \<Rightarrow> w' | (Inr u, w') \<Rightarrow> w')"

text \<open>The \<open>while True\<close> loop of \<open>readdata\<close>; it need not terminate, so not returning is
  the value \<open>None\<close>.\<close>

partial_function (option) readdata_loop ::
  "bytes \<Rightarrow> nat \<Rightarrow> world \<Rightarrow> ((error + bytes) \<times> world) option" where
  "readdata_loop buf n w =
     (case serial_read 64 w of
        (Inl e, w') \<Rightarrow> Some (Inl e, w')
      | (Inr data, w') \<Rightarrow>
          if length data > 0 then
            (let buf' = buf @ data in
             if length buf' \<ge> 2 \<and> drop (length buf' - 2) buf' = [CR, LF]
             then Some (Inr buf', w')
             else readdata_loop buf' n w')
          else
            (let n' = n + 1 in
             if n' > 2 then Some (Inr [], w')
             else readdata_loop buf n' w'))"

text \<open>\<open>SCPI.readdata\<close>: the loop, then lines 71 to 77 on the decoded buffer.\<close>

definition frame_line :: "pystr \<Rightarrow> pystr" where
  "frame_line res =
     (let x = str_find res [13, 10] in
      if x = int (length res) - 2 then str_strip res else [])"

definition readdata :: "world \<Rightarrow> ((error + pystr) \<times> world) option" where
  "readdata w =
     (case readdata_loop [] 0 w of
        None \<Rightarrow> None
      | Some (Inl e, w') \<Rightarrow> Some (Inl e, w')
      | Some (Inr buf, w') \<Rightarrow> Some (Inr (frame_line (decode buf)), w'))"

text \<open>\<open>SCPI.sendcmd\<close>; the result is Python's \<open>None\<close> when \<open>getdata\<close> is false.\<close>

definition sendcmd :: "pystr \<Rightarrow> bool \<Rightarrow> world \<Rightarrow> ((error + pystr option) \<times> world) option" where
  "sendcmd msg getdata w =
     (case encode_ascii (msg @ [10]) of
        Inl e \<Rightarrow> Some (Inl e, w)
      | Inr data \<Rightarrow>
          (case serial_write data w of
             (Inl e, w') \<Rightarrow> Some (Inl e, w')
           | (Inr u, w') \<Rightarrow>
               if getdata then
                 (case readdata w' of
                    None \<Rightarrow> None
                  | Some (Inl e, w'') \<Rightarrow> Some (Inl e, w'')
                  | Some (Inr res, w'') \<Rightarrow> Some (Inr (Some res), w''))
               else Some (Inr None, w')))"

section \<open>class XdmMeter\<close>

datatype cmds = VOLT | VOLT_AC | CURR | CURR_AC | RES | CAP | FREQ | PER | TEMP | DIODE | CONT

text \<open>The value of each member is a tuple of one string, the SCPI mnemonic.\<close>

fun cmds_value :: "cmds \<Rightarrow> pystr list" where
  "cmds_value VOLT = [py ''VOLT'']"
| "cmds_value VOLT_AC = [py ''VOLT:AC'']"
| "cmds_value CURR = [py ''CURR'']"
| "cmds_value CURR_AC = [py ''CURR:AC'']"
| "cmds_value RES = [py ''RES'']"
| "cmds_value CAP = [py ''CAP'']"
| "cmds_value FREQ = [py ''FREQ'']"
| "cmds_value PER = [py ''PER'']"
| "cmds_value TEMP = [py ''TEMP'']"
| "cmds_value DIODE = [py ''DIOD'']"
| "cmds_value CONT = [py ''CONT'']"

fun cmds_name :: "cmds \<Rightarrow> pystr" where
  "cmds_name VOLT = py ''VOLT''"
| "cmds_name VOLT_AC = py ''VOLT_AC''"
| "cmds_name CURR = py ''CURR''"
| "cmds_name CURR_AC = py ''CURR_AC''"
| "cmds_name RES = py ''RES''"
| "cmds_name CAP = py ''CAP''"
| "cmds_name FREQ = py ''FREQ''"
| "cmds_name PER = py ''PER''"
| "cmds_name TEMP = py ''TEMP''"
| "cmds_name DIODE = py ''DIODE''"
| "cmds_name CONT = py ''CONT''"

text \<open>\<open>cmds.__str__\<close> returns \<open>self.name\<close>; an f-string formats a member with it.\<close>

definition cmds_str :: "cmds \<Rightarrow> pystr" where
  "cmds_str c = cmds_name c"

record xdm_meter =
  MiniBM :: "scpi option"
  ident :: "pystr option"

text \<open>\<open>XdmMeter.__init__\<close>; \<open>timeout=0.1\<close> is 100 ms.  Setting \<open>MiniBM\<close> to \<open>None\<close>
  drops the only reference to the \<open>SCPI\<close> object; what the interpreter does with the
  dropped object is not part of the model.\<close>

definition XdmMeter_init :: "pystr \<Rightarrow> world \<Rightarrow> ((error + xdm_meter) \<times> world) option" where
  "XdmMeter_init port w =
     (case SCPI_init port 115200 100 w of
        (sc, w1) \<Rightarrow>
          (case sendcmd (py ''*IDN?'') True w1 of
             None \<Rightarrow> None
           | Some (Inl e, w2) \<Rightarrow> Some (Inl e, w2)
           | Some (Inr r, w2) \<Rightarrow>
               if r = Some [] then
                 Some (Inr \<lparr>MiniBM = None, ident = r\<rparr>,
                       print (py ''device at '' @ port @ py '' does not respond'') w2)
               else
                 Some (Inr \<lparr>MiniBM = Some sc, ident = r\<rparr>,
                       print (case r of Some s \<Rightarrow> s | None \<Rightarrow> py ''None'') w2)))"

text \<open>The two escape sequences matched by \<open>get_response\<close>: the eight characters
  \<open>\xa6\xb8\<close> and the nine characters \<open>\xa6\xccF\<close>.\<close>

definition ohm_escape :: pystr where
  "ohm_escape = [92] @ py ''xa6'' @ [92] @ py ''xb8''"

definition uF_escape :: pystr where
  "uF_escape = [92] @ py ''xa6'' @ [92] @ py ''xccF''"

text \<open>Lines 142 to 147 of \<open>get_response\<close>.  \<open>s[:-k]\<close> is \<open>take (length s - k) s\<close>;
  \<open>dquote\<close> is the string of one double-quote character, code point 34.\<close>

definition dquote :: pystr where
  "dquote = [34]"

definition repair :: "pystr \<Rightarrow> pystr" where
  "repair s =
     (if endswith s ohm_escape then take (length s - 8) s @ py ''Ohm''
      else if endswith s uF_escape then take (length s - 9) s @ py ''uF''
      else if endswith s dquote then str_strip_chars s dquote
      else s)"

text \<open>
  \<open>XdmMeter.get_response\<close>.  \<open>pf\<close> is Python's \<open>float\<close> on a string, \<open>None\<close> when it
  raises \<open>ValueError\<close>; \<open>n\<close> is the loop's counter.  Leaving the loop with
  \<open>Successful\<close> set is returning \<open>Res\<close>.  \<open>self.MiniBM.sendcmd\<close> on \<open>None\<close> raises
  \<open>AttributeError\<close>.
\<close>

function get_response_loop ::
  "(pystr \<Rightarrow> 'f option) \<Rightarrow> xdm_meter \<Rightarrow> pystr \<Rightarrow> bool \<Rightarrow> nat \<Rightarrow> world
     \<Rightarrow> ((error + 'f pyval) \<times> world) option" where
  "get_response_loop pf self cmd numeric n w =
     (case MiniBM self of
        None \<Rightarrow> Some (Inl AttributeError, w)
      | Some sc \<Rightarrow>
          (case sendcmd cmd True w of
             None \<Rightarrow> None
           | Some (Inl e, w') \<Rightarrow> Some (Inl e, w')
           | Some (Inr s, w') \<Rightarrow>
               if s \<noteq> Some [] then
                 (if numeric then
                    (case s of
                       None \<Rightarrow> Some (Inl TypeError, w')
                     | Some t \<Rightarrow>
                         (case pf t of
                            Some v \<Rightarrow> Some (Inr (PyFloat v), w')
                          | None \<Rightarrow> Some (Inr (PyInt 0), w')))
                  else
                    (case s of
                       None \<Rightarrow> Some (Inl AttributeError, w')
                     | Some t \<Rightarrow> Some (Inr (PyStr (repair t)), w')))
               else
                 (let w'' = sleep 100 w'; n' = n + 1 in
                  if n' > 5 then Some (Inr (if numeric then PyInt 0 else PyStr (py ''?'')), w'')
                  else get_response_loop pf self cmd numeric n' w'')))"
  by pat_completeness auto
termination
  by (relation "measure (\<lambda>(pf, self, cmd, numeric, n, w). 6 - n)") auto

definition get_response ::
  "(pystr \<Rightarrow> 'f option) \<Rightarrow> xdm_meter \<Rightarrow> pystr \<Rightarrow> bool \<Rightarrow> world
     \<Rightarrow> ((error + 'f pyval) \<times> world) option" where
  "get_response pf self cmd numeric w = get_response_loop pf self cmd numeric 0 w"

text \<open>\<open>set_mode\<close> formats \<open>f"CONF:{mode}"\<close> and discards what \<open>get_response\<close> returns.\<close>

definition set_mode ::
  "(pystr \<Rightarrow> 'f option) \<Rightarrow> xdm_meter \<Rightarrow> cmds \<Rightarrow> world \<Rightarrow> ((error + unit) \<times> world) option" where
  "set_mode pf self mode w =
     (case get_response pf self (py ''CONF:'' @ cmds_str mode) False w of
        None \<Rightarrow> None
      | Some (Inl e, w') \<Rightarrow> Some (Inl e, w')
      | Some (Inr v, w') \<Rightarrow> Some (Inr (), w'))"

definition get_mode ::
  "(pystr \<Rightarrow> 'f option) \<Rightarrow> xdm_meter \<Rightarrow> world \<Rightarrow> ((error + 'f pyval) \<times> world) option" where
  "get_mode pf self w = get_response pf self (py ''FUNC?'') False w"

definition get_measurement ::
  "(pystr \<Rightarrow> 'f option) \<Rightarrow> xdm_meter \<Rightarrow> world \<Rightarrow> ((error + 'f pyval) \<times> world) option" where
  "get_measurement pf self w = get_response pf self (py ''MEAS?'') True w"

text \<open>\<open>XdmMeter.close\<close>: \<open>self.MiniBM.__del__()\<close>.\<close>

definition close :: "xdm_meter \<Rightarrow> world \<Rightarrow> (error + unit) \<times> world" where
  "close self w =
     (case MiniBM self of
        None \<Rightarrow> (Inl AttributeError, w)
      | Some sc \<Rightarrow> (Inr (), SCPI_del w))"

section \<open>Views of the device's schedule\<close>

text \<open>
  What the next reads deliver, seen from a world \<open>w\<close>: \<open>chunk w i\<close> is the result of
  the \<open>i\<close>-th \<open>read(64)\<close> from now, \<open>received w k\<close> the bytes of the first \<open>k\<close> of them,
  \<open>empty_reads w k\<close> how many of those came back empty, and \<open>advance k w\<close> the world
  after \<open>k\<close> reads.
\<close>

definition chunk :: "world \<Rightarrow> nat \<Rightarrow> bytes" where
  "chunk w i = take 64 (feed w (reads w + i))"

definition received :: "world \<Rightarrow> nat \<Rightarrow> bytes" where
  "received w k = concat (map (chunk w) [0..<k])"

definition empty_reads :: "world \<Rightarrow> nat \<Rightarrow> nat" where
  "empty_reads w k = length (filter (\<lambda>i. chunk w i = []) [0..<k])"

definition advance :: "nat \<Rightarrow> world \<Rightarrow> world" where
  "advance k w = w\<lparr>reads := reads w + k\<rparr>"

text \<open>The loop's exit test \<open>len(buf) >= 2 and buf[-2:] == b"\r\n"\<close>.\<close>

definition ends_crlf :: "bytes \<Rightarrow> bool" where
  "ends_crlf b \<longleftrightarrow> length b \<ge> 2 \<and> drop (length b - 2) b = [CR, LF]"

text \<open>
  Read \<open>k\<close> completes a frame: it delivers bytes and leaves the buffer, which started as
  \<open>buf\<close>, ending in CR LF.  Read \<open>k\<close> is the abort: it is empty and brings the count of
  empty reads, which started at \<open>n\<close>, to three.
\<close>

definition frame_at :: "bytes \<Rightarrow> world \<Rightarrow> nat \<Rightarrow> bool" where
  "frame_at buf w k \<longleftrightarrow> chunk w k \<noteq> [] \<and> ends_crlf (buf @ received w (Suc k))"

definition abort_at :: "nat \<Rightarrow> world \<Rightarrow> nat \<Rightarrow> bool" where
  "abort_at n w k \<longleftrightarrow> chunk w k = [] \<and> n + empty_reads w (Suc k) = 3"

section \<open>Devices and instances used as examples\<close>

text \<open>A device that answers the successive reads with the given chunks and then stays
  silent, behind an open port on which nothing has happened yet.\<close>

definition scripted :: "bytes list \<Rightarrow> world" where
  "scripted cs =
     \<lparr>feed = (\<lambda>k. if k < length cs then cs ! k else []), reads = 0, written = [],
      is_open = True, sleeps = [], printed = []\<rparr>"

text \<open>A device that answers every read with the byte \<open>x\<close>.\<close>

definition chattering :: world where
  "chattering =
     \<lparr>feed = (\<lambda>k. ''x''), reads = 0, written = [], is_open = True, sleeps = [], printed = []\<rparr>"

definition meter_on :: xdm_meter where
  "meter_on =
     \<lparr>MiniBM = Some \<lparr>port_dev = py ''COM23'', speed = 115200, timeout_ms = 100\<rparr>,
      ident = Some (py ''XDM1041'')\<rparr>"

definition meter_absent :: xdm_meter where
  "meter_absent = \<lparr>MiniBM = None, ident = Some []\<rparr>"

text \<open>A stand-in for \<open>float\<close> in examples: it accepts the non-empty strings of ASCII digits
  and nothing else.\<close>

definition float_digits :: "pystr \<Rightarrow> nat option" where
  "float_digits s =
     (if s \<noteq> [] \<and> list_all (\<lambda>c. 48 \<le> c \<and> c \<le> 57) s
      then Some (foldl (\<lambda>a c. 10 * a + (c - 48)) 0 s) else None)"

text \<open>The world left by constructing an instance on \<open>COM23\<close> when the device stays
  silent, and the one left when it identifies itself.\<close>

definition unanswered :: world where
  "unanswered =
     (scripted [])\<lparr>reads := 3, written := [''*IDN?'' @ [LF]],
                    printed := [py ''device at COM23 does not respond'']\<rparr>"

definition identified :: world where
  "identified =
     (scripted [''XDM1041,V1.0'' @ [CR, LF]])\<lparr>reads := 1, written := [''*IDN?'' @ [LF]],
                    printed := [py ''XDM1041,V1.0'']\<rparr>"

definition meter_identified :: xdm_meter where
  "meter_identified =
     \<lparr>MiniBM = Some \<lparr>port_dev = py ''COM23'', speed = 115200, timeout_ms = 100\<rparr>,
      ident = Some (py ''XDM1041,V1.0'')\<rparr>"

text \<open>
  \<open>empty_replies k cmd w\<close>: the next \<open>k\<close> sends of \<open>cmd\<close> each yield the empty decoded
  line and are each followed by the 100 ms sleep; the result is the world after them.
\<close>

fun empty_replies :: "nat \<Rightarrow> pystr \<Rightarrow> world \<Rightarrow> world option" where
  "empty_replies 0 cmd w = Some w"
| "empty_replies (Suc k) cmd w =
     (case sendcmd cmd True w of
        Some (Inr (Some []), w') \<Rightarrow> empty_replies k cmd (sleep 100 w')
      | _ \<Rightarrow> None)"

text \<open>The world after six unanswered sends of \<open>MEAS?\<close> to a silent device.\<close>

definition exhausted :: world where
  "exhausted =
     (scripted [])\<lparr>reads := 18,
        written := [''MEAS?'' @ [LF], ''MEAS?'' @ [LF], ''MEAS?'' @ [LF],
                    ''MEAS?'' @ [LF], ''MEAS?'' @ [LF], ''MEAS?'' @ [LF]],
        sleeps := [100, 100, 100, 100, 100, 100]\<rparr>"

text \<open>A reply whose unit is the device's two-byte glyph for Ohm.\<close>

definition ohm_reply :: bytes where
  "ohm_reply = ''1.2k'' @ [char_of (0xA6::nat), char_of (0xB8::nat), CR, LF]"

text \<open>
  A device that lets the first send of \<open>FUNC?\<close> time out and answers the second with
  \<open>ohm_reply\<close>; the world after the failed first attempt and its sleep, and the world after
  the second send.
\<close>

definition late_ohm :: world where
  "late_ohm = scripted [[], [], [], ohm_reply]"

definition late_ohm_retry :: world where
  "late_ohm_retry = late_ohm\<lparr>reads := 3, written := [''FUNC?'' @ [LF]], sleeps := [100]\<rparr>"

definition late_ohm_answered :: world where
  "late_ohm_answered =
     late_ohm\<lparr>reads := 4, written := [''FUNC?'' @ [LF], ''FUNC?'' @ [LF]], sleeps := [100]\<rparr>"

text \<open>The same for \<open>MEAS?\<close> answered by \<open>abc\<close> at the second send.\<close>

definition late_abc :: world where
  "late_abc = scripted [[], [], [], ''abc'' @ [CR, LF]]"

definition late_abc_retry :: world where
  "late_abc_retry = late_abc\<lparr>reads := 3, written := [''MEAS?'' @ [LF]], sleeps := [100]\<rparr>"

definition late_abc_answered :: world where
  "late_abc_answered =
     late_abc\<lparr>reads := 4, written := [''MEAS?'' @ [LF], ''MEAS?'' @ [LF]], sleeps := [100]\<rparr>"

text \<open>
  The loop as claim C4 words it, for comparison: the counter holds the number of
  consecutive empty reads, so a read that returns bytes resets it.  The source does not
  contain this reset.
\<close>

partial_function (option) readdata_loop_consecutive ::
  "bytes \<Rightarrow> nat \<Rightarrow> world \<Rightarrow> ((error + bytes) \<times> world) option" where
  "readdata_loop_consecutive buf n w =
     (case serial_read 64 w of
        (Inl e, w') \<Rightarrow> Some (Inl e, w')
      | (Inr data, w') \<Rightarrow>
          if length data > 0 then
            (let buf' = buf @ data in
             if length buf' \<ge> 2 \<and> drop (length buf' - 2) buf' = [CR, LF]
             then Some (Inr buf', w')
             else readdata_loop_consecutive buf' 0 w')
          else
            (let n' = n + 1 in
             if n' > 2 then Some (Inr [], w')
             else readdata_loop_consecutive buf n' w'))"

text \<open>A device whose bytes arrive one at a time with a timeout before each, one whose
  frame is followed by noise in the same read, and one whose noise is followed by a second
  frame.\<close>

definition stuttering :: world where
  "stuttering = scripted [[], ''a'', [], ''b'', [], ''c'' @ [CR, LF]]"

definition trailing_noise :: world where
  "trailing_noise = scripted [''1.5'' @ [CR, LF] @ ''X'']"

definition two_frames :: world where
  "two_frames = scripted [''1.5'' @ [CR, LF] @ ''X'', ''Y'' @ [CR, LF]]"

definition padded :: world where
  "padded = scripted ['' 1.5  '' @ [CR, LF]]"

section \<open>Basic facts\<close>

lemma advance_simps [simp]:
  "is_open (advance k w) = is_open w"
  "reads (advance k w) = reads w + k"
  "feed (advance k w) = feed w"
  "written (advance k w) = written w"
  "sleeps (advance k w) = sleeps w"
  "printed (advance k w) = printed w"
  "advance j (advance k w) = advance (k + j) w"
  by (simp_all add: advance_def)

lemma advance_0 [simp]: "advance 0 w = w"
  by (simp add: advance_def)

lemma chunk_advance: "chunk (advance j w) = (\<lambda>i. chunk w (j + i))"
  by (rule ext) (simp add: chunk_def add.assoc)

lemma upt_shift: "[0..<Suc k] = 0 # map Suc [0..<k]"
  by (simp add: upt_conv_Cons map_Suc_upt del: upt_Suc)

lemma received_shift: "received w (Suc k) = chunk w 0 @ received (advance 1 w) k"
  unfolding received_def upt_shift by (simp add: chunk_advance comp_def)

lemma empty_reads_shift:
  "empty_reads w (Suc k) = (if chunk w 0 = [] then 1 else 0) + empty_reads (advance 1 w) k"
  unfolding empty_reads_def upt_shift by (simp add: chunk_advance filter_map comp_def)

lemma frame_at_shift: "frame_at buf w (Suc i) = frame_at (buf @ chunk w 0) (advance 1 w) i"
  by (simp add: frame_at_def received_shift [of w "Suc i"] chunk_advance)

lemma abort_at_shift:
  "abort_at n w (Suc i) = abort_at (n + (if chunk w 0 = [] then 1 else 0)) (advance 1 w) i"
  by (simp add: abort_at_def empty_reads_shift [of w "Suc i"] chunk_advance)

lemma frame_at_0: "frame_at buf w 0 \<longleftrightarrow> chunk w 0 \<noteq> [] \<and> ends_crlf (buf @ chunk w 0)"
  by (simp add: frame_at_def received_def)

lemma abort_at_0: "abort_at n w 0 \<longleftrightarrow> chunk w 0 = [] \<and> n = 2"
  by (auto simp add: abort_at_def empty_reads_def)

subsection \<open>The loop of \<open>readdata\<close>\<close>

lemma readdata_loop_step:
  assumes "is_open w"
  shows "readdata_loop buf n w =
     (if chunk w 0 \<noteq> [] then
        (if ends_crlf (buf @ chunk w 0) then Some (Inr (buf @ chunk w 0), advance 1 w)
         else readdata_loop (buf @ chunk w 0) n (advance 1 w))
      else if n + 1 > 2 then Some (Inr [], advance 1 w)
      else readdata_loop buf (n + 1) (advance 1 w))"
  using assms
  by (subst readdata_loop.simps)
     (simp add: serial_read_def chunk_def ends_crlf_def advance_def Let_def)

lemma readdata_loop_closed:
  "\<not> is_open w \<Longrightarrow> readdata_loop buf n w = Some (Inl PortNotOpenError, w)"
  by (subst readdata_loop.simps) (simp add: serial_read_def)

text \<open>If no earlier read ends the loop, a read that completes a frame returns the buffer and
  a read that is the third empty one returns the empty buffer.\<close>

lemma readdata_loop_total:
  assumes "is_open w" "n \<le> 2" "\<forall>i<k. \<not> frame_at buf w i \<and> \<not> abort_at n w i"
  shows "(frame_at buf w k \<longrightarrow>
            readdata_loop buf n w = Some (Inr (buf @ received w (Suc k)), advance (Suc k) w)) \<and>
         (abort_at n w k \<longrightarrow> readdata_loop buf n w = Some (Inr [], advance (Suc k) w))"
  using assms
proof (induction k arbitrary: buf n w)
  case 0
  then show ?case
    by (subst (1 2) readdata_loop_step) (auto simp: frame_at_0 abort_at_0 received_def)
next
  case (Suc k)
  from Suc.prems(3) have no0: "\<not> frame_at buf w 0" "\<not> abort_at n w 0" by auto
  let ?buf = "buf @ chunk w 0" and ?n = "n + (if chunk w 0 = [] then 1 else 0)"
  have n2: "?n \<le> 2" using no0 Suc.prems(2) by (auto simp: abort_at_0)
  have rest: "\<forall>i<k. \<not> frame_at ?buf (advance 1 w) i \<and> \<not> abort_at ?n (advance 1 w) i"
    using Suc.prems(3) by (auto simp: frame_at_shift abort_at_shift)
  have step: "readdata_loop buf n w = readdata_loop ?buf ?n (advance 1 w)"
    using no0 Suc.prems(1,2) by (subst readdata_loop_step) (auto simp: frame_at_0 abort_at_0)
  have open': "is_open (advance 1 w)" using Suc.prems(1) by simp
  from Suc.IH [OF open' n2 rest] show ?case
    unfolding step frame_at_shift abort_at_shift
    by (simp add: received_shift [of w "Suc k"])
qed

text \<open>Conversely, the loop returns only if some read ends it.\<close>

lemma readdata_loop_returns:
  "readdata_loop buf n w = Some y \<Longrightarrow>
     is_open w \<longrightarrow> n \<le> 2 \<longrightarrow>
       (\<exists>k. (\<forall>i<k. \<not> frame_at buf w i \<and> \<not> abort_at n w i) \<and> (frame_at buf w k \<or> abort_at n w k))"
proof (induction rule: readdata_loop.raw_induct [rotated, consumes 1])
  case (1 loop buf n w y)
  show ?case
  proof (intro impI)
    assume op: "is_open w" and n2: "n \<le> 2"
    show "\<exists>k. (\<forall>i<k. \<not> frame_at buf w i \<and> \<not> abort_at n w i) \<and> (frame_at buf w k \<or> abort_at n w k)"
    proof (cases "frame_at buf w 0 \<or> abort_at n w 0")
      case True
      then show ?thesis by (intro exI [of _ 0]) simp
    next
      case False
      let ?buf = "buf @ chunk w 0" and ?n = "n + (if chunk w 0 = [] then 1 else 0)"
      have n2': "?n \<le> 2" using False n2 by (auto simp: abort_at_0)
      have "loop ?buf ?n (advance 1 w) = Some y"
        using 1(2) False op n2
        by (auto simp: serial_read_def chunk_def ends_crlf_def advance_def Let_def frame_at_0 abort_at_0
              split: if_splits)
      from 1(1) [OF this] have "is_open (advance 1 w) \<longrightarrow> ?n \<le> 2 \<longrightarrow>
          (\<exists>k. (\<forall>i<k. \<not> frame_at ?buf (advance 1 w) i \<and> \<not> abort_at ?n (advance 1 w) i) \<and>
            (frame_at ?buf (advance 1 w) k \<or> abort_at ?n (advance 1 w) k))" .
      with n2' op obtain k where
        k: "\<forall>i<k. \<not> frame_at ?buf (advance 1 w) i \<and> \<not> abort_at ?n (advance 1 w) i"
           "frame_at ?buf (advance 1 w) k \<or> abort_at ?n (advance 1 w) k"
        by auto
      have "\<forall>i<Suc k. \<not> frame_at buf w i \<and> \<not> abort_at n w i"
      proof (intro allI impI)
        fix i assume "i < Suc k"
        then show "\<not> frame_at buf w i \<and> \<not> abort_at n w i"
          using False k(1) by (cases i) (auto simp: frame_at_shift abort_at_shift)
      qed
      moreover have "frame_at buf w (Suc k) \<or> abort_at n w (Suc k)"
        using k(2) by (simp add: frame_at_shift abort_at_shift)
      ultimately show ?thesis by blast
    qed
  qed
qed

lemma readdata_loop_result:
  assumes "is_open w" "n \<le> 2" "readdata_loop buf n w = Some y"
  shows "\<exists>k. (\<forall>i<k. \<not> frame_at buf w i \<and> \<not> abort_at n w i) \<and>
           (frame_at buf w k \<and> y = (Inr (buf @ received w (Suc k)), advance (Suc k) w)
            \<or> abort_at n w k \<and> y = (Inr [], advance (Suc k) w))"
proof -
  from readdata_loop_returns [OF assms(3)] assms(1,2) obtain k where
    k: "\<forall>i<k. \<not> frame_at buf w i \<and> \<not> abort_at n w i" "frame_at buf w k \<or> abort_at n w k"
    by blast
  from readdata_loop_total [OF assms(1,2) k(1)] k(2) assms(3) have
    "frame_at buf w k \<and> y = (Inr (buf @ received w (Suc k)), advance (Suc k) w)
            \<or> abort_at n w k \<and> y = (Inr [], advance (Suc k) w)"
    by auto
  with k(1) show ?thesis by blast
qed

lemma readdata_world:
  assumes "is_open w" "readdata w = Some (r, w')"
  shows "\<exists>k. w' = advance k w"
proof -
  from assms(2) obtain y where y: "readdata_loop [] 0 w = Some y" "snd y = w'"
    by (auto simp: readdata_def split: option.splits prod.splits sum.splits)
  from readdata_loop_result [OF assms(1) _ y(1)] y(2) show ?thesis by auto
qed

lemma sendcmd_effect:
  assumes "sendcmd cmd True w = Some (Inr r, w')"
  shows "\<exists>k. w' = advance k (w\<lparr>written := written w @ [map char_of (cmd @ [10])]\<rparr>)"
proof -
  let ?u = "w\<lparr>written := written w @ [map char_of (cmd @ [10])]\<rparr>"
  from assms have op: "is_open w" and enc: "encode_ascii (cmd @ [10]) = Inr (map char_of (cmd @ [10]))"
    by (auto simp: sendcmd_def serial_write_def encode_ascii_def split: sum.splits if_splits)
  from assms op enc obtain s where "readdata ?u = Some (Inr s, w')"
    by (auto simp: sendcmd_def serial_write_def split: option.splits prod.splits sum.splits)
  moreover have "is_open ?u" using op by simp
  ultimately show ?thesis using readdata_world by blast
qed

subsection \<open>The decoder\<close>

lemma not_cont_ascii: "c < 0x80 \<Longrightarrow> \<not> is_cont c"
  by (simp add: is_cont_def)

lemma utf8_dec_ascii_Cons: "c < 0x80 \<Longrightarrow> utf8_dec (c # b) = c # utf8_dec b"
  by simp

text \<open>An ASCII byte is never swallowed by a sequence that precedes it: the decoded text
  splits where the byte stands.\<close>

lemma utf8_dec_ascii_split:
  assumes c: "c < 0x80"
  shows "utf8_dec (a @ c # b) = utf8_dec a @ c # utf8_dec b"
proof (induction a rule: length_induct)
  case (1 a)
  then have IH: "\<And>t. length t < length a \<Longrightarrow> utf8_dec (t @ c # b) = utf8_dec t @ c # utf8_dec b"
    by blast
  note nc = not_cont_ascii [OF c] and c0 = utf8_dec_ascii_Cons [OF c, of b]
  show ?case
  proof (cases a)
    case Nil
    then show ?thesis using c by simp
  next
    case a: (Cons x s)
    show ?thesis
    proof (cases s)
      case Nil
      show ?thesis unfolding a Nil
        using nc c0
        by (simp add: utf8_dec.simps(2) [of x "c # b"] utf8_dec.simps(2) [of x "[]"]
              del: utf8_dec.simps(2))
    next
      case s: (Cons c2 s2)
      have I1: "utf8_dec (c2 # s2 @ c # b) = utf8_dec (c2 # s2) @ c # utf8_dec b"
        using IH [of "c2 # s2"] by (simp add: a s del: utf8_dec.simps(2))
      show ?thesis
      proof (cases s2)
        case Nil
        have I1': "utf8_dec (c2 # c # b) = utf8_dec [c2] @ c # utf8_dec b"
          using I1 by (simp add: Nil del: utf8_dec.simps(2))
        show ?thesis unfolding a s Nil
          using nc c0 I1'
          by (simp add: utf8_dec.simps(2) [of x "c2 # c # b"] utf8_dec.simps(2) [of x "[c2]"]
                del: utf8_dec.simps(2))
      next
        case s2: (Cons c3 s3)
        have I2: "utf8_dec (c3 # s3 @ c # b) = utf8_dec (c3 # s3) @ c # utf8_dec b"
          using IH [of "c3 # s3"] by (simp add: a s s2 del: utf8_dec.simps(2))
        show ?thesis
        proof (cases s3)
          case Nil
          have I1': "utf8_dec (c2 # c3 # c # b) = utf8_dec [c2, c3] @ c # utf8_dec b"
            using I1 by (simp add: s2 Nil del: utf8_dec.simps(2))
          have I2': "utf8_dec (c3 # c # b) = utf8_dec [c3] @ c # utf8_dec b"
            using I2 by (simp add: Nil del: utf8_dec.simps(2))
          show ?thesis unfolding a s s2 Nil
            using nc c0 I1' I2'
            by (simp add: utf8_dec.simps(2) [of x "c2 # c3 # c # b"]
                  utf8_dec.simps(2) [of x "[c2, c3]"] del: utf8_dec.simps(2))
        next
          case s3: (Cons c4 s4)
          have I3: "utf8_dec (c4 # s4 @ c # b) = utf8_dec (c4 # s4) @ c # utf8_dec b"
            using IH [of "c4 # s4"] by (simp add: a s s2 s3 del: utf8_dec.simps(2))
          have I4: "utf8_dec (s4 @ c # b) = utf8_dec s4 @ c # utf8_dec b"
            using IH [of s4] by (simp add: a s s2 s3)
          have I1': "utf8_dec (c2 # c3 # c4 # s4 @ c # b) = utf8_dec (c2 # c3 # c4 # s4) @ c # utf8_dec b"
            using I1 by (simp add: s2 s3 del: utf8_dec.simps(2))
          have I2': "utf8_dec (c3 # c4 # s4 @ c # b) = utf8_dec (c3 # c4 # s4) @ c # utf8_dec b"
            using I2 by (simp add: s3 del: utf8_dec.simps(2))
          show ?thesis unfolding a s s2 s3
            using I1' I2' I3 I4
            by (simp add: utf8_dec.simps(2) [of x "c2 # c3 # c4 # s4 @ c # b"]
                  utf8_dec.simps(2) [of x "c2 # c3 # c4 # s4"] del: utf8_dec.simps(2))
        qed
      qed
    qed
  qed
qed

lemma utf8_dec_nonempty: "s \<noteq> [] \<Longrightarrow> utf8_dec s \<noteq> []"
  by (cases s) (auto simp: bsx_def split: list.splits)

subsection \<open>Running the model on an example\<close>

lemma char_of_numeral:
  "char_of (numeral k :: nat) =
     Char (odd (numeral k :: nat)) (odd (numeral k div 2 :: nat)) (odd (numeral k div 4 :: nat))
          (odd (numeral k div 8 :: nat)) (odd (numeral k div 16 :: nat)) (odd (numeral k div 32 :: nat))
          (odd (numeral k div 64 :: nat)) (odd (numeral k div 128 :: nat))"
  by (simp add: char_of_def bit_iff_odd)

lemmas run_defs = readdata_def sendcmd_def get_response_def set_mode_def get_mode_def
  get_measurement_def XdmMeter_init_def SCPI_init_def SCPI_del_def close_def
  serial_read_def serial_write_def serial_close_def sleep_def print_def
  encode_ascii_def decode_def frame_line_def str_find_def str_strip_def strip_where_def
  is_space_def py_def CR_def LF_def scripted_def meter_on_def meter_absent_def
  cmds_str_def repair_def dquote_def endswith_def ohm_escape_def uF_escape_def str_strip_chars_def
  float_digits_def bsx_def hexdigit_def is_cont_def char_of_numeral
  unanswered_def identified_def meter_identified_def exhausted_def ohm_reply_def
  late_ohm_def late_ohm_retry_def late_ohm_answered_def late_abc_def late_abc_retry_def
  late_abc_answered_def stuttering_def trailing_noise_def two_frames_def
  padded_def chattering_def

section \<open>Construction against an absent device\<close>

lemma get_response_absent:
  "MiniBM self = None \<Longrightarrow> get_response pf self cmd numeric w = Some (Inl AttributeError, w)"
  by (simp add: get_response_def)

lemma XdmMeter_init_absent:
  assumes "XdmMeter_init port w = Some (Inr self, w')" "ident self = Some []"
  shows "MiniBM self = None"
  using assms
  by (auto simp: XdmMeter_init_def SCPI_init_def split: option.splits prod.splits sum.splits if_splits)

lemma XdmMeter_init_present:
  assumes "XdmMeter_init port w = Some (Inr self, w')" "ident self \<noteq> Some []"
  shows "\<exists>sc. MiniBM self = Some sc"
  using assms
  by (auto simp: XdmMeter_init_def SCPI_init_def split: option.splits prod.splits sum.splits if_splits)

text \<open>
  C1, as stated, fails.  Constructed on \<open>COM23\<close> against a silent device, the instance
  records the absence (\<open>MiniBM\<close> is \<open>None\<close>), and \<open>get_measurement\<close> then raises
  \<open>AttributeError\<close> instead of returning the sentinel \<open>0\<close>.
\<close>

theorem absent_device_counterexample:
  "XdmMeter_init (py ''COM23'') (scripted []) = Some (Inr meter_absent, unanswered)
   \<and> get_measurement float_digits meter_absent unanswered = Some (Inl AttributeError, unanswered)"
  by (simp add: run_defs readdata_loop.simps)

text \<open>
  C1, amended: if the identification query issued at construction returns an empty reply,
  the instance records the device as absent, and every subsequent \<open>get_response\<close>,
  \<open>get_mode\<close>, \<open>get_measurement\<close> and \<open>set_mode\<close> raises \<open>AttributeError\<close> and leaves
  the world as it was: no transport I/O is attempted and no sentinel is returned.
\<close>

theorem absent_device_raises:
  assumes "XdmMeter_init port w = Some (Inr self, w')" and "ident self = Some []"
  shows "MiniBM self = None
    \<and> get_response pf self cmd numeric u = Some (Inl AttributeError, u)
    \<and> get_mode pf self u = Some (Inl AttributeError, u)
    \<and> get_measurement pf self u = Some (Inl AttributeError, u)
    \<and> set_mode pf self mode u = Some (Inl AttributeError, u)"
  using XdmMeter_init_absent [OF assms]
  by (simp add: get_response_absent get_mode_def get_measurement_def set_mode_def)

theorem absent_device_raises_witness:
  "XdmMeter_init (py ''COM23'') (scripted []) = Some (Inr meter_absent, unanswered)
   \<and> ident meter_absent = Some []
   \<and> MiniBM meter_absent = None
   \<and> get_response float_digits meter_absent (py ''MEAS?'') True unanswered
        = Some (Inl AttributeError, unanswered)
   \<and> get_mode float_digits meter_absent unanswered = Some (Inl AttributeError, unanswered)
   \<and> get_measurement float_digits meter_absent unanswered = Some (Inl AttributeError, unanswered)
   \<and> set_mode float_digits meter_absent VOLT unanswered = Some (Inl AttributeError, unanswered)"
proof -
  have h1: "XdmMeter_init (py ''COM23'') (scripted []) = Some (Inr meter_absent, unanswered)"
    by (simp add: run_defs readdata_loop.simps)
  have h2: "ident meter_absent = Some []"
    by (simp add: meter_absent_def)
  show ?thesis
    using h1 h2
      absent_device_raises [OF h1 h2, of float_digits "py ''MEAS?''" True unanswered VOLT]
    by blast
qed

section \<open>\<open>set_mode\<close>\<close>

text \<open>
  C2: \<open>set_mode\<close> should send \<open>CONF:\<close> followed by the member's mnemonic.  For
  \<open>VOLT_AC\<close> the mnemonic is \<open>VOLT:AC\<close>, but the text written to the port is
  \<open>CONF:VOLT_AC\<close>, the member's name: \<open>__str__\<close> returns \<open>self.name\<close>.  The reply is
  read without numeric interpretation and dropped.
\<close>

theorem set_mode_sends_member_name:
  "set_mode float_digits meter_on VOLT_AC (scripted [''OK'' @ [CR, LF]]) =
     Some (Inr (), (scripted [''OK'' @ [CR, LF]])\<lparr>reads := 1, written := [''CONF:VOLT_AC'' @ [LF]]\<rparr>)
   \<and> cmds_value VOLT_AC = [py ''VOLT:AC'']
   \<and> ''CONF:VOLT_AC'' @ [LF] \<noteq> map char_of (py ''CONF:VOLT:AC'' @ [10])"
  by (simp add: run_defs readdata_loop.simps)

section \<open>\<open>close\<close>\<close>

text \<open>
  C8, as stated, fails on an instance whose identification failed: \<open>close\<close> raises
  \<open>AttributeError\<close> there.
\<close>

theorem close_absent_counterexample:
  "XdmMeter_init (py ''COM23'') (scripted []) = Some (Inr meter_absent, unanswered)
   \<and> close meter_absent unanswered = (Inl AttributeError, unanswered)"
  by (simp add: run_defs readdata_loop.simps)

text \<open>
  C8, amended: for every constructed instance whose identification succeeded, \<open>close\<close>
  releases the underlying channel and does not raise, and a second call in sequence does
  not raise either and leaves the channel released.
\<close>

theorem close_identified_idempotent:
  assumes "XdmMeter_init port w0 = Some (Inr self, w1)" and "ident self \<noteq> Some []"
  shows "close self w = (Inr (), w\<lparr>is_open := False\<rparr>)
    \<and> close self (snd (close self w)) = (Inr (), w\<lparr>is_open := False\<rparr>)"
proof -
  from XdmMeter_init_present [OF assms] obtain sc where "MiniBM self = Some sc" ..
  then show ?thesis
    by (simp add: close_def SCPI_del_def serial_close_def)
qed

theorem close_identified_idempotent_witness:
  "XdmMeter_init (py ''COM23'') (scripted [''XDM1041,V1.0'' @ [CR, LF]])
      = Some (Inr meter_identified, identified)
   \<and> ident meter_identified \<noteq> Some []
   \<and> close meter_identified identified = (Inr (), identified\<lparr>is_open := False\<rparr>)
   \<and> close meter_identified (snd (close meter_identified identified))
      = (Inr (), identified\<lparr>is_open := False\<rparr>)"
proof -
  have h1: "XdmMeter_init (py ''COM23'') (scripted [''XDM1041,V1.0'' @ [CR, LF]])
      = Some (Inr meter_identified, identified)"
    by (simp add: run_defs readdata_loop.simps)
  have h2: "ident meter_identified \<noteq> Some []"
    by (simp add: meter_identified_def py_def)
  show ?thesis
    using h1 h2 close_identified_idempotent [OF h1 h2, of identified]
    by blast
qed

section \<open>\<open>get_response\<close>\<close>

subsection \<open>Attempts that yield nothing\<close>

lemma empty_replies_loop:
  assumes "MiniBM self = Some sc"
  shows "empty_replies (Suc j) cmd w = Some w' \<Longrightarrow> n + Suc j = 6 \<Longrightarrow>
     get_response_loop pf self cmd numeric n w
       = Some (Inr (if numeric then PyInt 0 else PyStr (py ''?'')), w')"
proof (induction j arbitrary: n w)
  case 0
  then show ?case using assms
    by (subst get_response_loop.simps)
       (auto split: option.splits prod.splits sum.splits list.splits simp: Let_def)
next
  case (Suc j)
  from Suc.prems(1) obtain w1 where
    w1: "sendcmd cmd True w = Some (Inr (Some []), w1)"
        "empty_replies (Suc j) cmd (sleep 100 w1) = Some w'"
    by (auto split: option.splits prod.splits sum.splits list.splits)
  from Suc.prems(2) have n: "Suc n + Suc j = 6" "\<not> n + 1 > 5" by auto
  from Suc.IH [OF w1(2) n(1)] show ?case using assms w1(1) n(2)
    by (subst get_response_loop.simps) (simp add: Let_def)
qed

lemma empty_replies_effect:
  "empty_replies k cmd w = Some w' \<Longrightarrow>
     written w' = written w @ replicate k (map char_of (cmd @ [10]))
     \<and> sleeps w' = sleeps w @ replicate k 100"
proof (induction k arbitrary: w)
  case 0
  then show ?case by simp
next
  case (Suc k)
  from Suc.prems obtain w1 where
    w1: "sendcmd cmd True w = Some (Inr (Some []), w1)"
        "empty_replies k cmd (sleep 100 w1) = Some w'"
    by (auto split: option.splits prod.splits sum.splits list.splits)
  from sendcmd_effect [OF w1(1)] have
    "written w1 = written w @ [map char_of (cmd @ [10])]" "sleeps w1 = sleeps w" by auto
  with Suc.IH [OF w1(2)] show ?case
    by (simp add: sleep_def replicate_append_same)
qed

text \<open>Failed attempts only advance the loop's counter and the world.\<close>

lemma get_response_loop_skip_empty:
  assumes "MiniBM self = Some sc"
  shows "empty_replies k cmd w = Some w1 \<Longrightarrow> n + k < 6 \<Longrightarrow>
     get_response_loop pf self cmd numeric n w = get_response_loop pf self cmd numeric (n + k) w1"
proof (induction k arbitrary: n w)
  case 0
  then show ?case by simp
next
  case (Suc k)
  from Suc.prems(1) obtain w0 where
    w0: "sendcmd cmd True w = Some (Inr (Some []), w0)"
        "empty_replies k cmd (sleep 100 w0) = Some w1"
    by (auto split: option.splits prod.splits sum.splits list.splits)
  from Suc.prems(2) have n: "Suc n + k < 6" "\<not> n + 1 > 5" by auto
  have "get_response_loop pf self cmd numeric n w
          = get_response_loop pf self cmd numeric (Suc n) (sleep 100 w0)"
    using assms w0(1) n(2) by (subst get_response_loop.simps) (simp add: Let_def)
  also have "\<dots> = get_response_loop pf self cmd numeric (Suc n + k) w1"
    by (rule Suc.IH [OF w0(2) n(1)])
  finally show ?case by simp
qed

text \<open>The first non-empty line ends the loop, at whichever of the six attempts it comes:
  \<open>k\<close> failed attempts, then the send that yields the line \<open>s\<close>.\<close>

lemma get_response_first_line:
  assumes "MiniBM self = Some sc" and "empty_replies k cmd w = Some w1" and "k < 6"
    and "sendcmd cmd True w1 = Some (Inr (Some s), w')" and "s \<noteq> []"
  shows "get_response pf self cmd numeric w
           = Some (Inr (if numeric then (case pf s of Some v \<Rightarrow> PyFloat v | None \<Rightarrow> PyInt 0)
                        else PyStr (repair s)), w')"
    and "written w' = written w @ replicate (Suc k) (map char_of (cmd @ [10]))"
    and "sleeps w' = sleeps w @ replicate k 100"
proof -
  have "get_response pf self cmd numeric w = get_response_loop pf self cmd numeric k w1"
    using get_response_loop_skip_empty [OF assms(1,2), of 0 pf numeric] assms(3)
    by (simp add: get_response_def)
  also have "\<dots> = Some (Inr (if numeric then (case pf s of Some v \<Rightarrow> PyFloat v | None \<Rightarrow> PyInt 0)
                        else PyStr (repair s)), w')"
    using assms(1,4,5) by (subst get_response_loop.simps) (simp split: option.splits)
  finally show "get_response pf self cmd numeric w
           = Some (Inr (if numeric then (case pf s of Some v \<Rightarrow> PyFloat v | None \<Rightarrow> PyInt 0)
                        else PyStr (repair s)), w')" .
  from empty_replies_effect [OF assms(2)] have
    e: "written w1 = written w @ replicate k (map char_of (cmd @ [10]))"
       "sleeps w1 = sleeps w @ replicate k 100"
    by auto
  from sendcmd_effect [OF assms(4)] have
    f: "written w' = written w1 @ [map char_of (cmd @ [10])]" "sleeps w' = sleeps w1"
    by auto
  show "written w' = written w @ replicate (Suc k) (map char_of (cmd @ [10]))"
    using e(1) f(1) by (simp add: replicate_append_same)
  show "sleeps w' = sleeps w @ replicate k 100"
    using e(2) f(2) by simp
qed

subsection \<open>A numeric reply that does not parse\<close>

text \<open>
  C7: when a non-empty decoded line is obtained, at the first attempt or after up to five
  failed ones, and numeric was requested but the line does not parse as a floating-point
  number, \<open>get_response\<close> returns the sentinel \<open>0\<close> at once: the world it leaves is the
  one left by the send that obtained the line, so with \<open>k\<close> failed attempts before it
  there are \<open>k + 1\<close> writes and \<open>k\<close> sleeps in all and no further attempt is made.
\<close>

theorem get_response_numeric_parse_failure:
  assumes "MiniBM self = Some sc" and "empty_replies k cmd w = Some w1" and "k < 6"
    and "sendcmd cmd True w1 = Some (Inr (Some s), w')"
    and "s \<noteq> []" and "pf s = None"
  shows "get_response pf self cmd True w = Some (Inr (PyInt 0), w')
    \<and> written w' = written w @ replicate (Suc k) (map char_of (cmd @ [10]))
    \<and> sleeps w' = sleeps w @ replicate k 100"
  using get_response_first_line(1) [OF assms(1-5), of pf True]
    get_response_first_line(2,3) [OF assms(1-5)] assms(6)
  by simp

theorem get_response_numeric_parse_failure_witness:
  "MiniBM meter_on = Some \<lparr>port_dev = py ''COM23'', speed = 115200, timeout_ms = 100\<rparr>
   \<and> empty_replies 1 (py ''MEAS?'') late_abc = Some late_abc_retry \<and> (1::nat) < 6
   \<and> sendcmd (py ''MEAS?'') True late_abc_retry = Some (Inr (Some (py ''abc'')), late_abc_answered)
   \<and> py ''abc'' \<noteq> [] \<and> float_digits (py ''abc'') = None
   \<and> get_response float_digits meter_on (py ''MEAS?'') True late_abc
       = Some (Inr (PyInt 0), late_abc_answered)
   \<and> length (written late_abc_answered) = 2 \<and> sleeps late_abc_answered = [100]"
proof -
  have h1: "MiniBM meter_on = Some \<lparr>port_dev = py ''COM23'', speed = 115200, timeout_ms = 100\<rparr>"
    by (simp add: meter_on_def)
  have h2: "empty_replies 1 (py ''MEAS?'') late_abc = Some late_abc_retry"
    by (simp add: run_defs readdata_loop.simps)
  have h3: "(1::nat) < 6" by simp
  have h4: "sendcmd (py ''MEAS?'') True late_abc_retry
              = Some (Inr (Some (py ''abc'')), late_abc_answered)"
    by (simp add: run_defs readdata_loop.simps)
  have h5: "py ''abc'' \<noteq> []" by (simp add: py_def)
  have h6: "float_digits (py ''abc'') = None" by (simp add: float_digits_def py_def)
  have e: "length (written late_abc_answered) = 2 \<and> sleeps late_abc_answered = [100]"
    by (simp add: late_abc_answered_def)
  show ?thesis
    using h1 h2 h3 h4 h5 h6 e
      get_response_numeric_parse_failure [where pf = float_digits, OF h1 h2 h3 h4 h5 h6]
    by blast
qed

subsection \<open>The retry bound\<close>

text \<open>
  C5: if every send yields an empty decoded line, \<open>get_response\<close> performs exactly six
  attempts, each followed by the fixed 100 ms delay, and then returns the degraded sentinel
  (\<open>0\<close> when numeric was requested, \<open>?\<close> otherwise) without raising.
\<close>

theorem get_response_retry_bound:
  assumes "MiniBM self = Some sc" and "empty_replies 6 cmd w = Some w'"
  shows "get_response pf self cmd numeric w
           = Some (Inr (if numeric then PyInt 0 else PyStr (py ''?'')), w')
    \<and> written w' = written w @ replicate 6 (map char_of (cmd @ [10]))
    \<and> sleeps w' = sleeps w @ replicate 6 100"
proof -
  have six: "(6::nat) = Suc 5" by simp
  have "get_response_loop pf self cmd numeric 0 w
           = Some (Inr (if numeric then PyInt 0 else PyStr (py ''?'')), w')"
    using empty_replies_loop [OF assms(1), of 5 cmd w w' 0 pf numeric] assms(2)
    unfolding six by simp
  with empty_replies_effect [OF assms(2)] show ?thesis
    by (simp add: get_response_def)
qed

theorem get_response_retry_bound_witness:
  "MiniBM meter_on = Some \<lparr>port_dev = py ''COM23'', speed = 115200, timeout_ms = 100\<rparr>
   \<and> empty_replies 6 (py ''MEAS?'') (scripted []) = Some exhausted
   \<and> get_response float_digits meter_on (py ''MEAS?'') True (scripted [])
        = Some (Inr (PyInt 0), exhausted)
   \<and> get_response float_digits meter_on (py ''MEAS?'') False (scripted [])
        = Some (Inr (PyStr (py ''?'')), exhausted)
   \<and> length (written exhausted) = 6 \<and> sleeps exhausted = [100, 100, 100, 100, 100, 100]"
proof -
  have h1: "MiniBM meter_on = Some \<lparr>port_dev = py ''COM23'', speed = 115200, timeout_ms = 100\<rparr>"
    by (simp add: meter_on_def)
  have six: "(6::nat) = Suc (Suc (Suc (Suc (Suc (Suc 0)))))" by simp
  have h2: "empty_replies 6 (py ''MEAS?'') (scripted []) = Some exhausted"
    unfolding six by (simp add: run_defs readdata_loop.simps)
  have e: "length (written exhausted) = 6 \<and> sleeps exhausted = [100, 100, 100, 100, 100, 100]"
    by (simp add: exhausted_def)
  show ?thesis
    using h1 h2 e
      get_response_retry_bound [OF h1 h2, of float_digits True]
      get_response_retry_bound [OF h1 h2, of float_digits False]
    by simp
qed

subsection \<open>Artifact repair\<close>

lemma endswith_iff: "endswith s suf \<longleftrightarrow> (\<exists>p. s = p @ suf)"
proof
  assume "endswith s suf"
  then have "s = take (length s - length suf) s @ suf"
    by (metis append_take_drop_id endswith_def)
  then show "\<exists>p. s = p @ suf" ..
next
  assume "\<exists>p. s = p @ suf"
  then show "endswith s suf" by (auto simp: endswith_def)
qed

lemma endswith_dquote: "endswith s dquote \<longleftrightarrow> s \<noteq> [] \<and> last s = 34"
  unfolding endswith_iff dquote_def
  by (metis append_butlast_last_id last_snoc snoc_eq_iff_butlast)

lemma strip_where_decomp:
  "\<exists>a b. s = a @ strip_where P s @ b \<and> (\<forall>x\<in>set a. P x) \<and> (\<forall>x\<in>set b. P x)"
proof -
  let ?t = "dropWhile P s"
  have 1: "s = takeWhile P s @ ?t" by simp
  have 2: "?t = strip_where P s @ rev (takeWhile P (rev ?t))"
    unfolding strip_where_def by (metis rev_append rev_rev_ident takeWhile_dropWhile_id)
  have "s = takeWhile P s @ strip_where P s @ rev (takeWhile P (rev ?t))"
    using 1 2 by metis
  moreover have "\<forall>x\<in>set (takeWhile P s). P x" by (auto dest: set_takeWhileD)
  moreover have "\<forall>x\<in>set (rev (takeWhile P (rev ?t))). P x" by (auto dest: set_takeWhileD)
  ultimately show ?thesis by blast
qed

lemma strip_where_ends:
  assumes "strip_where P s \<noteq> []"
  shows "\<not> P (hd (strip_where P s)) \<and> \<not> P (last (strip_where P s))"
proof -
  let ?t = "dropWhile P s"
  let ?r = "strip_where P s"
  have d: "dropWhile P (rev ?t) \<noteq> []" using assms by (simp add: strip_where_def)
  have "last ?r = hd (dropWhile P (rev ?t))"
    using d by (simp add: strip_where_def last_rev)
  then have l: "\<not> P (last ?r)" using d hd_dropWhile by metis
  have 2: "?t = ?r @ rev (takeWhile P (rev ?t))"
    unfolding strip_where_def by (metis rev_append rev_rev_ident takeWhile_dropWhile_id)
  then have "?t \<noteq> []" using assms by (metis Nil_is_append_conv)
  then have "\<not> P (hd ?t)" using hd_dropWhile by metis
  moreover have "hd ?t = hd ?r" using 2 assms by (metis hd_append2)
  ultimately show ?thesis using l by simp
qed

lemma all_same_replicate: "\<forall>x\<in>set a. x = c \<Longrightarrow> a = replicate (length a) c"
  by (induction a) auto

lemma length_ohm [simp]: "length ohm_escape = 8" by (simp add: ohm_escape_def py_def)
lemma length_uF [simp]: "length uF_escape = 9" by (simp add: uF_escape_def py_def)
lemma last_ohm: "last (p @ ohm_escape) = 56" by (simp add: ohm_escape_def py_def)
lemma last_uF: "last (p @ uF_escape) = 70" by (simp add: uF_escape_def py_def)

lemma repair_ohm: "repair (p @ ohm_escape) = p @ py ''Ohm''"
  by (simp add: repair_def endswith_iff)

lemma repair_uF: "repair (p @ uF_escape) = p @ py ''uF''"
proof -
  have "\<not> endswith (p @ uF_escape) ohm_escape"
    unfolding endswith_iff
  proof
    assume "\<exists>q. p @ uF_escape = q @ ohm_escape"
    then obtain q where "p @ uF_escape = q @ ohm_escape" ..
    then have "last (p @ uF_escape) = last (q @ ohm_escape)" by simp
    then show False by (simp add: last_ohm last_uF)
  qed
  then show ?thesis by (simp add: repair_def endswith_iff)
qed


lemma repair_dquote:
  assumes "s \<noteq> []" "last s = 34"
  shows "repair s = str_strip_chars s dquote"
proof -
  have "\<not> endswith s ohm_escape" "\<not> endswith s uF_escape"
    unfolding endswith_iff using assms(2) by (auto simp: last_ohm last_uF)
  then show ?thesis using assms by (simp add: repair_def endswith_dquote)
qed

lemma repair_other:
  assumes "\<not> (\<exists>p. s = p @ ohm_escape)" "\<not> (\<exists>p. s = p @ uF_escape)" "s = [] \<or> last s \<noteq> 34"
  shows "repair s = s"
proof -
  have "\<not> endswith s ohm_escape" "\<not> endswith s uF_escape"
    using assms(1,2) by (simp_all add: endswith_iff)
  moreover have "\<not> endswith s dquote"
    using assms(3) by (simp add: endswith_dquote)
  ultimately show ?thesis by (simp add: repair_def)
qed

lemma strip_dquote_shape:
  "\<exists>i j. s = replicate i 34 @ str_strip_chars s dquote @ replicate j 34"
proof -
  from strip_where_decomp [of s "\<lambda>c. c \<in> set dquote"] obtain a b where
    ab: "s = a @ str_strip_chars s dquote @ b" "\<forall>x\<in>set a. x = 34" "\<forall>x\<in>set b. x = 34"
    by (auto simp: str_strip_chars_def dquote_def)
  from ab(2,3) have "a = replicate (length a) 34" "b = replicate (length b) 34"
    by (simp_all add: all_same_replicate)
  with ab(1) show ?thesis by metis
qed

lemma strip_dquote_ends:
  "str_strip_chars s dquote \<noteq> [] \<Longrightarrow>
     hd (str_strip_chars s dquote) \<noteq> 34 \<and> last (str_strip_chars s dquote) \<noteq> 34"
  using strip_where_ends [of "\<lambda>c. c \<in> set dquote" s]
  by (simp add: str_strip_chars_def dquote_def)


text \<open>
  C6: in text mode \<open>get_response\<close> returns the first non-empty decoded line, obtained at
  the first attempt or after up to five failed ones, repaired: a line ending in the escape
  \<open>\xa6\xb8\<close> has that suffix replaced by \<open>Ohm\<close>; a line ending in the escape
  \<open>\xa6\xccF\<close> has that suffix replaced by \<open>uF\<close>; a line ending in a double quote has
  the double quotes stripped from both ends; any other line is returned unmodified.  The
  three patterns end in different characters, so at most one matches and the order of the
  tests decides nothing further.
\<close>

theorem get_response_artifact_repair:
  assumes "MiniBM self = Some sc" and "empty_replies k cmd w = Some w1" and "k < 6"
    and "sendcmd cmd True w1 = Some (Inr (Some s), w')" and "s \<noteq> []"
  shows "\<exists>r. get_response pf self cmd False w = Some (Inr (PyStr r), w')
    \<and> (\<forall>p. s = p @ ohm_escape \<longrightarrow> r = p @ py ''Ohm'')
    \<and> (\<forall>p. s = p @ uF_escape \<longrightarrow> r = p @ py ''uF'')
    \<and> (last s = 34 \<longrightarrow>
          (\<exists>i j. s = replicate i 34 @ r @ replicate j 34) \<and> (r = [] \<or> hd r \<noteq> 34 \<and> last r \<noteq> 34))
    \<and> ((\<forall>p. s \<noteq> p @ ohm_escape) \<and> (\<forall>p. s \<noteq> p @ uF_escape) \<and> last s \<noteq> 34 \<longrightarrow> r = s)"
proof (rule exI [of _ "repair s"], intro conjI allI impI)
  show "get_response pf self cmd False w = Some (Inr (PyStr (repair s)), w')"
    using get_response_first_line(1) [OF assms, of pf False] by simp
next
  fix p assume "s = p @ ohm_escape"
  then show "repair s = p @ py ''Ohm''" by (simp add: repair_ohm)
next
  fix p assume "s = p @ uF_escape"
  then show "repair s = p @ py ''uF''" by (simp add: repair_uF)
next
  assume "last s = 34"
  then show "\<exists>i j. s = replicate i 34 @ repair s @ replicate j 34"
    using assms(5) strip_dquote_shape [of s] by (simp add: repair_dquote)
next
  assume "last s = 34"
  then show "repair s = [] \<or> hd (repair s) \<noteq> 34 \<and> last (repair s) \<noteq> 34"
    using assms(5) strip_dquote_ends [of s] by (auto simp add: repair_dquote)
next
  assume "(\<forall>p. s \<noteq> p @ ohm_escape) \<and> (\<forall>p. s \<noteq> p @ uF_escape) \<and> last s \<noteq> 34"
  then show "repair s = s" by (intro repair_other) auto
qed

theorem get_response_artifact_repair_witness:
  "MiniBM meter_on = Some \<lparr>port_dev = py ''COM23'', speed = 115200, timeout_ms = 100\<rparr>
   \<and> empty_replies 1 (py ''FUNC?'') late_ohm = Some late_ohm_retry \<and> (1::nat) < 6
   \<and> sendcmd (py ''FUNC?'') True late_ohm_retry
        = Some (Inr (Some (py ''1.2k'' @ ohm_escape)), late_ohm_answered)
   \<and> py ''1.2k'' @ ohm_escape \<noteq> []
   \<and> get_response float_digits meter_on (py ''FUNC?'') False late_ohm
        = Some (Inr (PyStr (py ''1.2kOhm'')), late_ohm_answered)"
proof -
  have h1: "MiniBM meter_on = Some \<lparr>port_dev = py ''COM23'', speed = 115200, timeout_ms = 100\<rparr>"
    by (simp add: meter_on_def)
  have h2: "empty_replies 1 (py ''FUNC?'') late_ohm = Some late_ohm_retry"
    by (simp add: run_defs readdata_loop.simps)
  have h3: "(1::nat) < 6" by simp
  have h4: "sendcmd (py ''FUNC?'') True late_ohm_retry
        = Some (Inr (Some (py ''1.2k'' @ ohm_escape)), late_ohm_answered)"
    by (simp add: run_defs readdata_loop.simps)
  have h5: "py ''1.2k'' @ ohm_escape \<noteq> []"
    by (simp add: py_def)
  from get_response_artifact_repair [OF h1 h2 h3 h4 h5, of float_digits] obtain r where
    r: "get_response float_digits meter_on (py ''FUNC?'') False late_ohm
          = Some (Inr (PyStr r), late_ohm_answered)"
       "\<forall>p. py ''1.2k'' @ ohm_escape = p @ ohm_escape \<longrightarrow> r = p @ py ''Ohm''"
    by blast
  from r(2) have "r = py ''1.2k'' @ py ''Ohm''" by blast
  then have "r = py ''1.2kOhm''" by (simp add: py_def)
  with r(1) h1 h2 h3 h4 h5 show ?thesis by simp
qed

section \<open>\<open>readdata\<close>: when the loop ends\<close>

lemma empty_reads_Suc:
  "empty_reads w (Suc k) = empty_reads w k + (if chunk w k = [] then 1 else 0)"
  by (simp add: empty_reads_def)

lemma empty_reads_mono: "i \<le> k \<Longrightarrow> empty_reads w i \<le> empty_reads w k"
  by (induction k) (auto simp: empty_reads_Suc le_Suc_eq)

lemma abort_at_iff: "abort_at 0 w k \<longleftrightarrow> chunk w k = [] \<and> empty_reads w k = 2"
  by (auto simp: abort_at_def empty_reads_Suc)

lemma ends_crlf_nonempty: "ends_crlf b \<Longrightarrow> b \<noteq> []"
  by (auto simp: ends_crlf_def)

lemma readdata_None_iff: "readdata w = None \<longleftrightarrow> readdata_loop [] 0 w = None"
  by (auto simp: readdata_def split: option.splits prod.splits sum.splits)

lemma readdata_loop_stops_iff:
  assumes "is_open w"
  shows "readdata_loop [] 0 w \<noteq> None \<longleftrightarrow> (\<exists>k. frame_at [] w k \<or> abort_at 0 w k)"
proof
  assume "readdata_loop [] 0 w \<noteq> None"
  then obtain y where "readdata_loop [] 0 w = Some y" by auto
  from readdata_loop_returns [OF this] assms show "\<exists>k. frame_at [] w k \<or> abort_at 0 w k"
    by auto
next
  let ?P = "\<lambda>k. frame_at [] w k \<or> abort_at 0 w k"
  assume "\<exists>k. ?P k"
  then have l: "?P (LEAST k. ?P k)" by (rule LeastI_ex)
  have "\<forall>i<(LEAST k. ?P k). \<not> frame_at [] w i \<and> \<not> abort_at 0 w i"
    using not_less_Least by blast
  from readdata_loop_total [OF assms _ this] l show "readdata_loop [] 0 w \<noteq> None"
    by auto
qed

lemma chattering_chunk: "chunk chattering k = ''x''"
  by (simp add: chunk_def chattering_def)

lemma chattering_received: "received chattering k = replicate k (CHR ''x'')"
  by (induction k) (simp_all add: received_def chattering_chunk replicate_append_same)

lemma chattering_no_frame: "\<not> ends_crlf (received chattering (Suc k))"
proof
  assume "ends_crlf (received chattering (Suc k))"
  then have "drop (length (replicate (Suc k) (CHR ''x'')) - 2) (replicate (Suc k) (CHR ''x'')) = [CR, LF]"
    unfolding chattering_received ends_crlf_def by blast
  then have "set [CR, LF] \<subseteq> set (replicate (Suc k) (CHR ''x''))"
    by (metis set_drop_subset)
  then show False by (simp add: CR_def char_of_numeral)
qed


text \<open>
  C10: on an open port \<open>readdata\<close> returns exactly when some read either delivers bytes
  that leave the accumulated buffer ending in CR LF or is the third empty read in total.
  For a channel that forever returns non-empty chunks while the buffer never ends in CR LF
  it never returns: the counter of empty reads is untouched by non-empty reads and the
  loop has no other exit.
\<close>

theorem readdata_returns_iff:
  assumes "is_open w"
  shows "(readdata w \<noteq> None \<longleftrightarrow> (\<exists>k. frame_at [] w k \<or> abort_at 0 w k))
    \<and> ((\<forall>k. chunk w k \<noteq> [] \<and> \<not> ends_crlf (received w (Suc k))) \<longrightarrow> readdata w = None)"
proof
  show iff: "readdata w \<noteq> None \<longleftrightarrow> (\<exists>k. frame_at [] w k \<or> abort_at 0 w k)"
    using readdata_loop_stops_iff [OF assms] by (simp add: readdata_None_iff)
  show "(\<forall>k. chunk w k \<noteq> [] \<and> \<not> ends_crlf (received w (Suc k))) \<longrightarrow> readdata w = None"
  proof
    assume "\<forall>k. chunk w k \<noteq> [] \<and> \<not> ends_crlf (received w (Suc k))"
    then have "\<not> (\<exists>k. frame_at [] w k \<or> abort_at 0 w k)"
      by (simp add: frame_at_def abort_at_def)
    with iff show "readdata w = None" by blast
  qed
qed

theorem readdata_returns_iff_witness:
  "is_open chattering \<and> readdata chattering = None
   \<and> is_open (scripted []) \<and> abort_at 0 (scripted []) 2 \<and> readdata (scripted []) \<noteq> None"
proof -
  have h1: "is_open chattering" by (simp add: chattering_def)
  have h2: "is_open (scripted [])" by (simp add: scripted_def)
  have a: "abort_at 0 (scripted []) 2"
    by (simp add: abort_at_def empty_reads_def chunk_def scripted_def upt_rec [of 0]) 
  have c: "\<forall>k. chunk chattering k \<noteq> [] \<and> \<not> ends_crlf (received chattering (Suc k))"
    by (simp add: chattering_chunk chattering_no_frame)
  show ?thesis
    using h1 h2 a c readdata_returns_iff [OF h1] readdata_returns_iff [OF h2]
    by blast
qed


text \<open>
  C4, as stated, fails: the counter is not one of consecutive empty reads.  On a device
  whose bytes \<open>a\<close>, \<open>b\<close>, \<open>c\<close> CR LF arrive one per read with one timeout before each,
  the loop aborts with the empty frame at the fifth read, the third empty one in total,
  although no two empty reads were consecutive; the loop with the reset that the claim
  describes returns the frame.
\<close>

theorem readdata_consecutive_counterexample:
  "readdata_loop [] 0 stuttering = Some (Inr [], stuttering\<lparr>reads := 5\<rparr>)
   \<and> chunk stuttering 1 = ''a'' \<and> chunk stuttering 3 = ''b''
   \<and> readdata_loop_consecutive [] 0 stuttering
        = Some (Inr (''abc'' @ [CR, LF]), stuttering\<lparr>reads := 6\<rparr>)"
  by (simp add: run_defs readdata_loop.simps readdata_loop_consecutive.simps chunk_def)

text \<open>
  C4, amended: the loop counts the empty reads in total, a read that returns bytes does not
  reset the count, and it aborts with an empty frame exactly at the third empty read when
  no earlier read completed a frame; it returns an empty frame only in that way.  In
  particular, if the channel always returns zero bytes, it returns an empty frame after
  exactly 3 reads.
\<close>

theorem readdata_loop_counts_all_empty_reads:
  assumes "is_open w"
  shows "(chunk w k = [] \<and> empty_reads w k = 2 \<and> (\<forall>i<k. \<not> frame_at [] w i)
            \<longrightarrow> readdata_loop [] 0 w = Some (Inr [], advance (Suc k) w))
    \<and> (readdata_loop [] 0 w = Some (Inr [], w')
            \<longrightarrow> (\<exists>j. chunk w j = [] \<and> empty_reads w j = 2 \<and> w' = advance (Suc j) w))
    \<and> ((\<forall>i. chunk w i = []) \<longrightarrow> readdata_loop [] 0 w = Some (Inr [], advance 3 w))"
proof (intro conjI impI)
  assume k: "chunk w k = [] \<and> empty_reads w k = 2 \<and> (\<forall>i<k. \<not> frame_at [] w i)"
  have "\<forall>i<k. \<not> abort_at 0 w i"
  proof (intro allI impI notI)
    fix i assume "i < k" and "abort_at 0 w i"
    then have "empty_reads w (Suc i) = 3" "Suc i \<le> k" by (auto simp: abort_at_def)
    with empty_reads_mono [of "Suc i" k w] k show False by simp
  qed
  with k have "\<forall>i<k. \<not> frame_at [] w i \<and> \<not> abort_at 0 w i" by blast
  from readdata_loop_total [OF assms _ this] k
  show "readdata_loop [] 0 w = Some (Inr [], advance (Suc k) w)"
    by (simp add: abort_at_iff)
next
  assume r: "readdata_loop [] 0 w = Some (Inr [], w')"
  from readdata_loop_result [OF assms _ r] obtain j where
    "frame_at [] w j \<and> (Inr [], w') = (Inr ([] @ received w (Suc j)), advance (Suc j) w)
       \<or> abort_at 0 w j \<and> (Inr [], w') = (Inr [], advance (Suc j) w)"
    by auto
  then have "abort_at 0 w j \<and> w' = advance (Suc j) w"
    by (auto simp: frame_at_def dest: ends_crlf_nonempty)
  then show "\<exists>j. chunk w j = [] \<and> empty_reads w j = 2 \<and> w' = advance (Suc j) w"
    by (auto simp: abort_at_iff)
next
  assume e: "\<forall>i. chunk w i = []"
  then have "abort_at 0 w 2" "\<forall>i<2. \<not> frame_at [] w i \<and> \<not> abort_at 0 w i"
    by (auto simp: abort_at_def frame_at_def empty_reads_def upt_rec [of 0] upt_rec [of 1] less_2_cases_iff)
  from readdata_loop_total [OF assms _ this(2)] this(1)
  show "readdata_loop [] 0 w = Some (Inr [], advance 3 w)"
    by (simp add: numeral_3_eq_3 numeral_2_eq_2)
qed

theorem readdata_loop_counts_all_empty_reads_witness:
  "is_open stuttering \<and> chunk stuttering 4 = [] \<and> empty_reads stuttering 4 = 2
   \<and> readdata_loop [] 0 stuttering = Some (Inr [], advance 5 stuttering)
   \<and> is_open (scripted []) \<and> readdata_loop [] 0 (scripted []) = Some (Inr [], advance 3 (scripted []))"
proof -
  have four: "(4::nat) = Suc (Suc (Suc (Suc 0)))" by simp
  have h1: "is_open stuttering" by (simp add: stuttering_def scripted_def)
  have h2: "is_open (scripted [])" by (simp add: scripted_def)
  have a: "chunk stuttering 4 = []" "empty_reads stuttering 4 = 2"
    unfolding four by (simp_all add: chunk_def empty_reads_def stuttering_def scripted_def)
  have b: "\<forall>i<4. \<not> frame_at [] stuttering i"
    unfolding four
    by (simp add: All_less_Suc frame_at_def received_def ends_crlf_def chunk_def stuttering_def
          scripted_def CR_def LF_def char_of_numeral)
  have c: "\<forall>i. chunk (scripted []) i = []" by (simp add: chunk_def scripted_def)
  have "readdata_loop [] 0 stuttering = Some (Inr [], advance (Suc 4) stuttering)"
    using readdata_loop_counts_all_empty_reads [OF h1, of 4] a b by blast
  moreover have "readdata_loop [] 0 (scripted []) = Some (Inr [], advance 3 (scripted []))"
    using readdata_loop_counts_all_empty_reads [OF h2] c by blast
  ultimately show ?thesis using h1 h2 a by simp
qed


section \<open>\<open>readdata\<close>: the line returned\<close>

lemma find_from_bounds:
  "find_from sub s i = - 1 \<or> (int i \<le> find_from sub s i \<and> find_from sub s i \<le> int i + int (length s))"
  by (induction s arbitrary: i) (auto, force+)

lemma find_from_first:
  "find_from sub s i = int (i + k) \<Longrightarrow>
     take (length sub) (drop k s) = sub \<and> (\<forall>j<k. take (length sub) (drop j s) \<noteq> sub)"
proof (induction s arbitrary: i k)
  case Nil
  then show ?case by (auto split: if_splits)
next
  case (Cons c s)
  show ?case
  proof (cases "take (length sub) (c # s) = sub")
    case True
    with Cons.prems have "k = 0" by simp
    with True show ?thesis by simp
  next
    case False
    with Cons.prems have f: "find_from sub s (Suc i) = int (i + k)" by simp
    with find_from_bounds [of sub s "Suc i"] have "k \<noteq> 0" by auto
    then obtain k' where k': "k = Suc k'" by (cases k) auto
    with f have "find_from sub s (Suc i) = int (Suc i + k')" by simp
    from Cons.IH [OF this] have
      ih: "take (length sub) (drop k' s) = sub" "\<forall>j<k'. take (length sub) (drop j s) \<noteq> sub"
      by auto
    have "\<forall>j<k. take (length sub) (drop j (c # s)) \<noteq> sub"
    proof (intro allI impI)
      fix j assume "j < k"
      then show "take (length sub) (drop j (c # s)) \<noteq> sub"
        using False ih(2) k' by (cases j) auto
    qed
    with ih(1) k' show ?thesis by simp
  qed
qed

lemma find_from_occurrence:
  "take (length sub) (drop j s) = sub \<Longrightarrow> j \<le> length s \<Longrightarrow>
     int i \<le> find_from sub s i \<and> find_from sub s i \<le> int (i + j)"
proof (induction s arbitrary: i j)
  case Nil
  then show ?case by auto
next
  case (Cons c s)
  show ?case
  proof (cases "take (length sub) (c # s) = sub")
    case True
    then show ?thesis by simp
  next
    case False
    with Cons.prems obtain j' where j': "j = Suc j'" by (cases j) auto
    with Cons.prems have "take (length sub) (drop j' s) = sub" "j' \<le> length s" by auto
    from Cons.IH [OF this, of "Suc i"] False j' show ?thesis by auto
  qed
qed

lemma frame_line_invariant:
  assumes "frame_line res \<noteq> []"
  shows "(\<forall>a b. frame_line res \<noteq> a @ [13, 10] @ b)
    \<and> \<not> is_space (hd (frame_line res)) \<and> \<not> is_space (last (frame_line res))"
proof -
  let ?s = "str_strip res"
  from assms have x: "str_find res [13, 10] = int (length res) - 2" and s: "frame_line res = ?s"
    by (auto simp: frame_line_def Let_def split: if_splits)
  from assms s have ne: "?s \<noteq> []" by simp
  from strip_where_ends [of is_space res] ne
  have ends: "\<not> is_space (hd ?s)" "\<not> is_space (last ?s)" by (simp_all add: str_strip_def)
  from strip_where_decomp [of res is_space] obtain a0 b0 where
    d: "res = a0 @ ?s @ b0" by (auto simp: str_strip_def)
  have "\<forall>a b. ?s \<noteq> a @ [13, 10] @ b"
  proof (intro allI notI)
    fix a b assume ab: "?s = a @ [13, 10] @ b"
    have "b @ b0 \<noteq> []"
    proof
      assume "b @ b0 = []"
      with ab have "last ?s = 10" by simp
      with ends(2) show False by (simp add: is_space_def)
    qed
    then have pos: "0 < length (b @ b0)" by simp
    let ?j = "length (a0 @ a)"
    from d ab have res: "res = (a0 @ a) @ [13, 10] @ (b @ b0)" by simp
    then have occ: "take (length [13, 10 :: nat]) (drop ?j res) = [13, 10]" by simp
    from res pos have len: "length res = ?j + 2 + length (b @ b0)" by simp
    then have "length res \<ge> 2" by simp
    with x have "find_from [13, 10] res 0 = int (0 + (length res - 2))"
      by (simp add: str_find_def)
    from find_from_first [OF this] have "\<forall>j<length res - 2. take (length [13, 10 :: nat]) (drop j res) \<noteq> [13, 10]"
      by blast
    moreover have "?j < length res - 2" using len pos by simp
    ultimately show False using occ by blast
  qed
  with ends s show ?thesis by simp
qed

lemma readdata_Some:
  "readdata w = Some (Inr s, w') \<longleftrightarrow>
     (\<exists>buf. readdata_loop [] 0 w = Some (Inr buf, w') \<and> s = frame_line (decode buf))"
  by (auto simp: readdata_def split: option.splits prod.splits sum.splits)


text \<open>
  C9: every string returned by \<open>readdata\<close> is either empty or contains no CR LF and has
  no leading or trailing whitespace; a decoded buffer whose first CR LF is not at the tail
  position is discarded to the empty string.
\<close>

theorem readdata_line_invariant:
  "(readdata w = Some (Inr s, w') \<longrightarrow>
      s = [] \<or> (\<forall>a b. s \<noteq> a @ [13, 10] @ b) \<and> \<not> is_space (hd s) \<and> \<not> is_space (last s))
   \<and> (readdata_loop [] 0 w = Some (Inr buf, w')
        \<and> str_find (decode buf) [13, 10] \<noteq> int (length (decode buf)) - 2
      \<longrightarrow> readdata w = Some (Inr [], w'))"
proof (intro conjI impI)
  assume "readdata w = Some (Inr s, w')"
  then obtain buf where buf: "s = frame_line (decode buf)" by (auto simp: readdata_Some)
  show "s = [] \<or> (\<forall>a b. s \<noteq> a @ [13, 10] @ b) \<and> \<not> is_space (hd s) \<and> \<not> is_space (last s)"
  proof (cases "s = []")
    case True
    then show ?thesis by simp
  next
    case False
    then have "frame_line (decode buf) \<noteq> []" by (simp add: buf)
    from frame_line_invariant [OF this] show ?thesis unfolding buf by blast
  qed
next
  assume "readdata_loop [] 0 w = Some (Inr buf, w')
        \<and> str_find (decode buf) [13, 10] \<noteq> int (length (decode buf)) - 2"
  then show "readdata w = Some (Inr [], w')"
    by (simp add: readdata_def frame_line_def)
qed

theorem readdata_line_invariant_witness:
  "readdata padded = Some (Inr (py ''1.5''), padded\<lparr>reads := 1\<rparr>)
   \<and> (py ''1.5'' = [] \<or> (\<forall>a b. py ''1.5'' \<noteq> a @ [13, 10] @ b)
        \<and> \<not> is_space (hd (py ''1.5'')) \<and> \<not> is_space (last (py ''1.5'')))
   \<and> readdata_loop [] 0 two_frames
        = Some (Inr (''1.5'' @ [CR, LF] @ ''XY'' @ [CR, LF]), two_frames\<lparr>reads := 2\<rparr>)
   \<and> str_find (decode (''1.5'' @ [CR, LF] @ ''XY'' @ [CR, LF])) [13, 10]
        \<noteq> int (length (decode (''1.5'' @ [CR, LF] @ ''XY'' @ [CR, LF]))) - 2
   \<and> readdata two_frames = Some (Inr [], two_frames\<lparr>reads := 2\<rparr>)"
proof -
  have h1: "readdata padded = Some (Inr (py ''1.5''), padded\<lparr>reads := 1\<rparr>)"
    by (simp add: run_defs readdata_loop.simps)
  have h2: "readdata_loop [] 0 two_frames
        = Some (Inr (''1.5'' @ [CR, LF] @ ''XY'' @ [CR, LF]), two_frames\<lparr>reads := 2\<rparr>)"
    by (simp add: run_defs readdata_loop.simps)
  have h3: "str_find (decode (''1.5'' @ [CR, LF] @ ''XY'' @ [CR, LF])) [13, 10]
        \<noteq> int (length (decode (''1.5'' @ [CR, LF] @ ''XY'' @ [CR, LF]))) - 2"
    by (simp add: run_defs)
  show ?thesis
    using h1 h2 h3
      readdata_line_invariant [of padded "py ''1.5''" "padded\<lparr>reads := 1\<rparr>"]
      readdata_line_invariant [of two_frames _ "two_frames\<lparr>reads := 2\<rparr>"
         "''1.5'' @ [CR, LF] @ ''XY'' @ [CR, LF]"]
    by (simp add: py_def)
qed

lemma received_prefix: "k \<le> m \<Longrightarrow> \<exists>rest. received w m = received w k @ rest"
proof (induction m)
  case 0
  then show ?case by simp
next
  case (Suc m)
  show ?case
  proof (cases "k = Suc m")
    case True
    then show ?thesis by simp
  next
    case False
    with Suc.prems have "k \<le> m" by simp
    from Suc.IH [OF this] obtain rest where "received w m = received w k @ rest" ..
    then have "received w (Suc m) = received w k @ (rest @ chunk w m)"
      by (simp add: received_def)
    then show ?thesis ..
  qed
qed

lemma of_char_CR [simp]: "of_char CR = (13::nat)" by (simp add: CR_def)
lemma of_char_LF [simp]: "of_char LF = (10::nat)" by (simp add: LF_def)

lemma decode_crlf_split:
  "decode (p @ [CR, LF] @ q) = decode p @ [13, 10] @ decode q"
  by (simp add: decode_def utf8_dec_ascii_split [of 13])

lemma decode_nonempty: "q \<noteq> [] \<Longrightarrow> decode q \<noteq> []"
  by (simp add: decode_def utf8_dec_nonempty)

lemma frame_line_early_crlf:
  assumes "q \<noteq> []"
  shows "frame_line (decode (p @ [CR, LF] @ q)) = []"
proof -
  let ?P = "decode p" and ?Q = "decode q"
  let ?res = "?P @ [13, 10] @ ?Q"
  have "take (length [13, 10 :: nat]) (drop (length ?P) ?res) = [13, 10]" by simp
  from find_from_occurrence [OF this, of 0] have le: "str_find ?res [13, 10] \<le> int (length ?P)"
    by (simp add: str_find_def)
  have pos: "0 < int (length ?Q)" using decode_nonempty [OF assms] by simp
  have len: "int (length ?res) - 2 = int (length ?P) + int (length ?Q)" by simp
  have "str_find ?res [13, 10] \<noteq> int (length ?res) - 2"
    unfolding len using le pos by linarith
  then show ?thesis
    unfolding decode_crlf_split frame_line_def by (simp only: Let_def if_False)
qed


text \<open>
  C3, as stated, fails: when the payload \<open>1.5\<close>, CR LF and the noise \<open>X\<close> arrive in
  the same read, the buffer does not end in CR LF, the loop reads on until the third empty
  read, and \<open>readdata\<close> returns the empty string, not the bytes up to the terminator.
\<close>

theorem readdata_trailing_noise_counterexample:
  "chunk trailing_noise 0 = ''1.5'' @ [CR, LF] @ ''X''
   \<and> readdata_loop [] 0 trailing_noise = Some (Inr [], trailing_noise\<lparr>reads := 4\<rparr>)
   \<and> readdata trailing_noise = Some (Inr [], trailing_noise\<lparr>reads := 4\<rparr>)"
  by (simp add: run_defs readdata_loop.simps chunk_def)


text \<open>
  C3, amended: when the bytes read contain a CR LF followed by trailing noise (delivered in
  the same read or in a later one before \<open>readdata\<close> returns), \<open>readdata\<close> does not
  return the frame: whatever it returns is the empty string.
\<close>

theorem readdata_discards_noisy_frame:
  assumes "is_open w" and "readdata w = Some (Inr s, w')"
    and "received w k = p @ [CR, LF] @ q" and "q \<noteq> []" and "reads w + k \<le> reads w'"
  shows "s = []"
proof -
  from assms(2) obtain buf where
    buf: "readdata_loop [] 0 w = Some (Inr buf, w')" "s = frame_line (decode buf)"
    by (auto simp: readdata_Some)
  from readdata_loop_result [OF assms(1) _ buf(1)] obtain j where
    j: "frame_at [] w j \<and> (Inr buf, w') = (Inr ([] @ received w (Suc j)), advance (Suc j) w)
       \<or> abort_at 0 w j \<and> (Inr buf, w') = (Inr [], advance (Suc j) w)"
    by auto
  then have w': "w' = advance (Suc j) w" and b: "buf = [] \<or> buf = received w (Suc j)" by auto
  from b show ?thesis
  proof
    assume "buf = []"
    then show ?thesis by (simp add: buf(2) frame_line_def decode_def str_find_def)
  next
    assume r: "buf = received w (Suc j)"
    from assms(5) w' have "k \<le> Suc j" by simp
    from received_prefix [OF this] obtain rest where "received w (Suc j) = received w k @ rest" ..
    with r assms(3) have "buf = p @ [CR, LF] @ (q @ rest)" by simp
    moreover have "q @ rest \<noteq> []" using assms(4) by simp
    ultimately show ?thesis using frame_line_early_crlf buf(2) by blast
  qed
qed

theorem readdata_discards_noisy_frame_witness:
  "is_open two_frames
   \<and> readdata two_frames = Some (Inr [], two_frames\<lparr>reads := 2\<rparr>)
   \<and> received two_frames 1 = ''1.5'' @ [CR, LF] @ ''X''
   \<and> ''X'' \<noteq> []
   \<and> reads two_frames + 1 \<le> reads (two_frames\<lparr>reads := 2\<rparr>)"
proof -
  have h1: "is_open two_frames" by (simp add: two_frames_def scripted_def)
  have "readdata two_frames \<noteq> None"
    by (simp add: run_defs readdata_loop.simps)
  then obtain s w' where h2: "readdata two_frames = Some (Inr s, w')" and w': "w' = two_frames\<lparr>reads := 2\<rparr>"
    by (simp add: run_defs readdata_loop.simps)
  have h3: "received two_frames 1 = ''1.5'' @ [CR, LF] @ ''X''"
    by (simp add: received_def chunk_def two_frames_def scripted_def)
  have h4: "''X'' \<noteq> []" by simp
  have h5: "reads two_frames + 1 \<le> reads w'"
    by (simp add: w' two_frames_def scripted_def)
  from readdata_discards_noisy_frame [OF h1 h2 h3 h4 h5] have "s = []" .
  with h1 h2 h3 h4 h5 w' show ?thesis by simp
qed

end
